theory Spec2Isabelle
  imports Main "HOL-Library.Countable"
begin

section \<open>Python values, exceptions and built-ins used by pcset.py\<close>

text \<open>
  The exceptions that the module or the built-ins it calls can raise. \<open>ValueError\<close> carries
  its message: \<open>_check_n\<close> raises it with the pitch-class message, the built-in \<open>min\<close> raises
  it on an empty sequence and \<open>list.index\<close> raises it for a value that is not in the list.
\<close>

datatype error = ValueError string | KeyError int | IndexError

text \<open>The \<open>ValueError\<close> of \<open>_check_n\<close>; the specification calls it InvalidPitchClass.\<close>

definition InvalidPitchClass :: error where
  "InvalidPitchClass = ValueError ''pitch class, interval, or index number must be 0-11''"

text \<open>Sequencing of two computations that may raise: the first exception propagates.\<close>

definition bindE :: "error + 'a \<Rightarrow> ('a \<Rightarrow> error + 'b) \<Rightarrow> error + 'b" where
  "bindE m f = (case m of Inl e \<Rightarrow> Inl e | Inr v \<Rightarrow> f v)"

text \<open>\<open>min(lst)\<close> on a list of integers: raises on the empty list.\<close>

fun py_min :: "int list \<Rightarrow> error + int" where
  "py_min [] = Inl (ValueError ''min() arg is an empty sequence'')"
| "py_min (x # xs) = Inr (fold min xs x)"

text \<open>\<open>lst.index(v)\<close>: the position of the first occurrence, raises when there is none.\<close>

fun py_index :: "int list \<Rightarrow> int \<Rightarrow> error + nat" where
  "py_index [] v = Inl (ValueError ''value is not in list'')"
| "py_index (x # xs) v =
     (if x = v then Inr 0 else bindE (py_index xs v) (\<lambda>i. Inr (Suc i)))"

text \<open>\<open>lst[i]\<close> for a non-negative index: raises past the end.\<close>

definition py_nth :: "'a list \<Rightarrow> nat \<Rightarrow> error + 'a" where
  "py_nth xs i = (if i < length xs then Inr (xs ! i) else Inl IndexError)"

text \<open>
  \<open>1 << k\<close> on Python's unbounded integers. Every shift count in the module is a residue
  \<open>_ % 12\<close>, hence never negative.
\<close>

definition shl1 :: "int \<Rightarrow> int" where
  "shl1 k = 2 ^ nat k"

text \<open>
  \<open>itertools.combinations(it, 2)\<close>: the pairs of positions \<open>i < j\<close> of the iterated
  sequence, in lexicographic order of the positions.
\<close>

fun combinations2 :: "'a list \<Rightarrow> ('a \<times> 'a) list" where
  "combinations2 [] = []"
| "combinations2 (x # xs) = map (Pair x) xs @ combinations2 xs"

text \<open>
  \<open>result[i] += 1\<close> on a list, with Python's indexing: a negative index counts from the
  end, and an index outside the list raises.
\<close>

definition incr_at :: "int list \<Rightarrow> int \<Rightarrow> error + int list" where
  "incr_at result i =
     (let n = int (length result); j = (if i < 0 then n + i else i)
      in if 0 \<le> j \<and> j < n then Inr (result[nat j := result ! nat j + 1])
         else Inl IndexError)"

text \<open>\<open>s.remove(x)\<close> on a Python set: raises \<open>KeyError\<close> when \<open>x\<close> is not a member.\<close>

definition set_remove :: "int \<Rightarrow> int set \<Rightarrow> error + int set" where
  "set_remove x S = (if x \<in> S then Inr (S - {x}) else Inl (KeyError x))"

text \<open>
  Iterating over a Python set yields every element once, in an order fixed by the hash
  table and not by the element values. \<open>iterates xs S\<close> says that \<open>xs\<close> is such an order
  for the set \<open>S\<close>; the functions below that iterate over a set take the order as an argument.
\<close>

definition iterates :: "int list \<Rightarrow> int set \<Rightarrow> bool" where
  "iterates xs S \<longleftrightarrow> distinct xs \<and> set xs = S"

section \<open>The class PCSet\<close>

text \<open>An object has the one attribute \<open>_pcs\<close>, a set of integers.\<close>

record PCSet =
  pcs :: "int set"

text \<open>The data invariant of the specification: every stored element is in 0..11.\<close>

definition valid :: "PCSet \<Rightarrow> bool" where
  "valid s \<longleftrightarrow> pcs s \<subseteq> {0..11}"

subsection \<open>Helper functions\<close>

definition check_n :: "int \<Rightarrow> error + int" where
  "check_n n = (if 0 \<le> n \<and> n \<le> 11 then Inr n else Inl InvalidPitchClass)"

definition rotate_list :: "'a list \<Rightarrow> nat \<Rightarrow> 'a list" where
  "rotate_list input_list front_index = drop front_index input_list @ take front_index input_list"

subsection \<open>Construction\<close>

text \<open>
  The set comprehension of \<open>__init__\<close> validates the arguments from left to right and
  collects the results; the first invalid argument raises and no object is made.
\<close>

fun check_each :: "int list \<Rightarrow> int set \<Rightarrow> error + int set" where
  "check_each [] acc = Inr acc"
| "check_each (pc # rest) acc = bindE (check_n pc) (\<lambda>v. check_each rest (insert v acc))"

definition init :: "int list \<Rightarrow> error + PCSet" where
  "init args = bindE (check_each args {}) (\<lambda>S. Inr \<lparr>pcs = S\<rparr>)"

subsection \<open>Const methods (properties)\<close>

definition normal_order :: "PCSet \<Rightarrow> error + int list" where
  "normal_order s =
     (let sorted_pcs = sorted_list_of_set (pcs s);
          scores = map (\<lambda>pc_a. sum_list (map (\<lambda>pc_b. shl1 ((pc_b - pc_a) mod 12)) sorted_pcs))
                       sorted_pcs
      in bindE (py_min scores) (\<lambda>m.
         bindE (py_index scores m) (\<lambda>min_index.
         Inr (rotate_list sorted_pcs min_index))))"

definition inverted_pcs :: "int set \<Rightarrow> int set" where
  "inverted_pcs S = (\<lambda>pc. (- pc) mod 12) ` S"

text \<open>
  \<open>prime_form it_pcs it_inv\<close>: the property \<open>prime_form\<close>, where \<open>it_pcs\<close> is the order in
  which \<open>self._pcs\<close> is iterated and \<open>it_inv\<close> the order in which \<open>inverted_pcs\<close> is.
\<close>

definition prime_form :: "int list \<Rightarrow> int list \<Rightarrow> error + int list" where
  "prime_form it_pcs it_inv =
     (let transpositions =
            map (\<lambda>pc_a. sort (map (\<lambda>pc_b. (pc_b - pc_a) mod 12) it_pcs)) it_pcs;
          inversions =
            map (\<lambda>pc_a. sort (map (\<lambda>pc_b. (pc_b - pc_a) mod 12) it_inv)) it_inv;
          t_scores = map (\<lambda>lst. sum_list (map shl1 lst)) transpositions;
          i_scores = map (\<lambda>lst. sum_list (map shl1 lst)) inversions
      in bindE (py_min t_scores) (\<lambda>min_t.
         bindE (py_min i_scores) (\<lambda>min_i.
         if min_t \<le> min_i
         then bindE (py_index t_scores min_t) (py_nth transpositions)
         else bindE (py_index i_scores min_i) (py_nth inversions))))"

text \<open>The loop of \<open>interval_class_vector\<close> over the pairs still to be visited.\<close>

fun icv_loop :: "(int \<times> int) list \<Rightarrow> int list \<Rightarrow> error + int list" where
  "icv_loop [] result = Inr result"
| "icv_loop ((pc_a, pc_b) # rest) result =
     (let pc_ivl = (pc_b - pc_a) mod 12;
          pc_ivl = (if pc_ivl > 6 then (- pc_ivl) mod 12 else pc_ivl)
      in bindE (incr_at result (pc_ivl - 1)) (icv_loop rest))"

text \<open>
  \<open>interval_class_vector it_pcs\<close>: the property \<open>interval_class_vector\<close>, where \<open>it_pcs\<close>
  is the order in which \<open>self._pcs\<close> is iterated.
\<close>

definition interval_class_vector :: "int list \<Rightarrow> error + int list" where
  "interval_class_vector it_pcs = icv_loop (combinations2 it_pcs) (replicate 6 0)"

subsection \<open>Non-const methods\<close>

text \<open>
  A mutating method takes the receiver and returns the exception it raised, if any, together
  with the receiver as the call leaves it.
\<close>

definition add_pc :: "int \<Rightarrow> PCSet \<Rightarrow> error option \<times> PCSet" where
  "add_pc pc s =
     (case check_n pc of
        Inl e \<Rightarrow> (Some e, s)
      | Inr v \<Rightarrow> (None, s\<lparr>pcs := insert v (pcs s)\<rparr>))"

definition remove_pc :: "int \<Rightarrow> PCSet \<Rightarrow> error option \<times> PCSet" where
  "remove_pc pc s =
     (case set_remove pc (pcs s) of
        Inr S \<Rightarrow> (None, s\<lparr>pcs := S\<rparr>)
      | Inl (KeyError k) \<Rightarrow> (None, s)
      | Inl e \<Rightarrow> (Some e, s))"

definition t_n :: "int \<Rightarrow> PCSet \<Rightarrow> error option \<times> PCSet" where
  "t_n n s =
     (case check_n n of
        Inl e \<Rightarrow> (Some e, s)
      | Inr v \<Rightarrow> (None, s\<lparr>pcs := (\<lambda>pc. (pc + n) mod 12) ` pcs s\<rparr>))"

definition i_n :: "int \<Rightarrow> PCSet \<Rightarrow> error option \<times> PCSet" where
  "i_n n s =
     (case check_n n of
        Inl e \<Rightarrow> (Some e, s)
      | Inr v \<Rightarrow> (None, s\<lparr>pcs := (\<lambda>pc. (n - pc) mod 12) ` pcs s\<rparr>))"

subsection \<open>Set methods\<close>

definition issubset :: "PCSet \<Rightarrow> PCSet \<Rightarrow> bool" where
  "issubset self other \<longleftrightarrow> pcs self \<subseteq> pcs other"

definition issuperset :: "PCSet \<Rightarrow> PCSet \<Rightarrow> bool" where
  "issuperset self other \<longleftrightarrow> pcs other \<subseteq> pcs self"

text \<open>
  The methods that build a new object are modelled on a store of objects: a reference is a
  position in the store, and \<open>PCSet()\<close> allocates the next position with an empty set.
\<close>

type_synonym ref = nat
type_synonym store = "PCSet list"

definition new_PCSet :: "store \<Rightarrow> ref \<times> store" where
  "new_PCSet h = (length h, h @ [\<lparr>pcs = {}\<rparr>])"

definition difference :: "ref \<Rightarrow> ref \<Rightarrow> store \<Rightarrow> ref \<times> store" where
  "difference self other h =
     (let (result, h1) = new_PCSet h
      in (result, h1[result := (h1 ! result)\<lparr>pcs := pcs (h1 ! self) - pcs (h1 ! other)\<rparr>]))"

definition intersection :: "ref \<Rightarrow> ref \<Rightarrow> store \<Rightarrow> ref \<times> store" where
  "intersection self other h =
     (let (result, h1) = new_PCSet h
      in (result, h1[result := (h1 ! result)\<lparr>pcs := pcs (h1 ! self) \<inter> pcs (h1 ! other)\<rparr>]))"

definition union :: "ref \<Rightarrow> ref \<Rightarrow> store \<Rightarrow> ref \<times> store" where
  "union self other h =
     (let (result, h1) = new_PCSet h
      in (result, h1[result := (h1 ! result)\<lparr>pcs := pcs (h1 ! self) \<union> pcs (h1 ! other)\<rparr>]))"

section \<open>Notions of the specification\<close>

text \<open>
  The compactness score of the specification's section 4.2: the sum over all \<open>b\<close> of the set
  of \<open>2 ^ ((b - a) mod 12)\<close>.
\<close>

definition score :: "int set \<Rightarrow> int \<Rightarrow> int" where
  "score S a = (\<Sum>b\<in>S. 2 ^ nat ((b - a) mod 12))"

text \<open>
  The interval class of the specification's section 4.4, \<open>min ivl (12 - ivl)\<close> for
  \<open>ivl = (b - a) mod 12\<close>, and the unordered pairs of distinct elements of a set that have a
  given interval class, each pair represented once with its smaller element first.
\<close>

definition interval_class :: "int \<Rightarrow> int \<Rightarrow> int" where
  "interval_class a b = min ((b - a) mod 12) (12 - (b - a) mod 12)"

definition pairs_of_class :: "int set \<Rightarrow> int \<Rightarrow> (int \<times> int) set" where
  "pairs_of_class S k = {(a, b). a \<in> S \<and> b \<in> S \<and> a < b \<and> interval_class a b = k}"

text \<open>A pair of distinct pitch classes, as \<open>combinations\<close> yields them on a valid set.\<close>

definition pitch_class_pair :: "int \<times> int \<Rightarrow> bool" where
  "pitch_class_pair p \<longleftrightarrow>
     0 \<le> fst p \<and> fst p \<le> 11 \<and> 0 \<le> snd p \<and> snd p \<le> 11 \<and> fst p \<noteq> snd p"

text \<open>
  The candidates of the specification's section 4.3: for a starting element \<open>a\<close> of a
  collection, the sorted list of \<open>(b - a) mod 12\<close> over all \<open>b\<close> of the collection; and the
  weight \<open>\<Sum> 2 ^ value\<close> of a candidate.
\<close>

definition candidate :: "int set \<Rightarrow> int \<Rightarrow> int list" where
  "candidate S a = sorted_list_of_set ((\<lambda>b. (b - a) mod 12) ` S)"

definition candidates :: "int set \<Rightarrow> int list set" where
  "candidates S = candidate S ` S"

definition weight :: "int list \<Rightarrow> int" where
  "weight c = (\<Sum>v\<leftarrow>c. 2 ^ nat v)"

section \<open>Validation\<close>

lemma check_each_ok:
  "\<forall>a\<in>set args. 0 \<le> a \<and> a \<le> 11 \<Longrightarrow> check_each args acc = Inr (set args \<union> acc)"
  by (induction args arbitrary: acc) (simp_all add: check_n_def bindE_def)

lemma check_each_bad:
  "\<exists>a\<in>set args. \<not> (0 \<le> a \<and> a \<le> 11) \<Longrightarrow> check_each args acc = Inl InvalidPitchClass"
proof (induction args arbitrary: acc)
  case Nil
  then show ?case by simp
next
  case (Cons a args)
  show ?case
  proof (cases "0 \<le> a \<and> a \<le> 11")
    case True
    with Cons.prems have "\<exists>b\<in>set args. \<not> (0 \<le> b \<and> b \<le> 11)" by auto
    with Cons.IH True show ?thesis by (simp add: check_n_def bindE_def)
  next
    case False
    then show ?thesis by (auto simp: check_n_def bindE_def)
  qed
qed

lemma init_ok: "\<forall>a\<in>set args. 0 \<le> a \<and> a \<le> 11 \<Longrightarrow> init args = Inr \<lparr>pcs = set args\<rparr>"
  by (simp add: init_def check_each_ok bindE_def)

lemma init_bad: "\<exists>a\<in>set args. \<not> (0 \<le> a \<and> a \<le> 11) \<Longrightarrow> init args = Inl InvalidPitchClass"
  by (simp add: init_def check_each_bad bindE_def)

text \<open>
  C5. \<open>_check_n\<close> returns its argument when it is in 0..11 and raises the pitch-class
  \<open>ValueError\<close> otherwise. \<open>add_pc\<close>, \<open>t_n\<close> and \<open>i_n\<close> raise exactly when their argument is
  outside 0..11, and then leave the receiver as it was; the constructor raises exactly when
  one of its arguments is outside 0..11, and then makes no object.
\<close>

theorem invalid_pitch_class_iff_out_of_range:
  "(0 \<le> n \<and> n \<le> 11 \<longrightarrow>
      check_n n = Inr n \<and> fst (add_pc n s) = None \<and> fst (t_n n s) = None
      \<and> fst (i_n n s) = None)
   \<and> (\<not> (0 \<le> n \<and> n \<le> 11) \<longrightarrow>
      check_n n = Inl InvalidPitchClass
      \<and> add_pc n s = (Some InvalidPitchClass, s)
      \<and> t_n n s = (Some InvalidPitchClass, s)
      \<and> i_n n s = (Some InvalidPitchClass, s))
   \<and> ((\<exists>a\<in>set args. \<not> (0 \<le> a \<and> a \<le> 11)) \<longrightarrow> init args = Inl InvalidPitchClass)
   \<and> ((\<forall>a\<in>set args. 0 \<le> a \<and> a \<le> 11) \<longrightarrow> init args = Inr \<lparr>pcs = set args\<rparr>)"
  using init_ok [of args] init_bad [of args]
  by (simp add: check_n_def add_pc_def t_n_def i_n_def)

theorem invalid_pitch_class_iff_out_of_range_witness:
  "check_n 12 = Inl InvalidPitchClass
   \<and> add_pc (- 1) \<lparr>pcs = {0, 4}\<rparr> = (Some InvalidPitchClass, \<lparr>pcs = {0, 4}\<rparr>)
   \<and> t_n 12 \<lparr>pcs = {0, 4}\<rparr> = (Some InvalidPitchClass, \<lparr>pcs = {0, 4}\<rparr>)
   \<and> check_n 11 = Inr 11
   \<and> fst (i_n 11 \<lparr>pcs = {0, 4}\<rparr>) = None
   \<and> init [0, 12, 4] = Inl InvalidPitchClass
   \<and> init [0, 4, 0] = Inr \<lparr>pcs = {0, 4}\<rparr>"
  using invalid_pitch_class_iff_out_of_range [of 12 "\<lparr>pcs = {0, 4}\<rparr>" "[0, 12, 4]"]
    invalid_pitch_class_iff_out_of_range [of "- 1" "\<lparr>pcs = {0, 4}\<rparr>" "[0, 4, 0]"]
    invalid_pitch_class_iff_out_of_range [of 11 "\<lparr>pcs = {0, 4}\<rparr>" "[0, 4, 0]"]
  by auto

section \<open>The data invariant\<close>

lemma init_valid: "init args = Inr s \<Longrightarrow> valid s"
proof (cases "\<forall>a\<in>set args. 0 \<le> a \<and> a \<le> 11")
  case True
  assume "init args = Inr s"
  with True have "s = \<lparr>pcs = set args\<rparr>" by (simp add: init_ok)
  with True show ?thesis by (auto simp: valid_def)
next
  case False
  assume "init args = Inr s"
  moreover from False have "init args = Inl InvalidPitchClass" by (simp add: init_bad)
  ultimately show ?thesis by simp
qed

lemma add_pc_valid: "valid s \<Longrightarrow> valid (snd (add_pc pc s))"
  by (auto simp: valid_def add_pc_def check_n_def)

lemma remove_pc_valid: "valid s \<Longrightarrow> valid (snd (remove_pc pc s))"
  by (auto simp: valid_def remove_pc_def set_remove_def)

lemma t_n_valid: "valid s \<Longrightarrow> valid (snd (t_n n s))"
  by (auto simp: valid_def t_n_def check_n_def)

lemma i_n_valid: "valid s \<Longrightarrow> valid (snd (i_n n s))"
  by (auto simp: valid_def i_n_def check_n_def)

lemma store_update_valid:
  assumes "\<forall>x\<in>set h. valid x" and "valid v"
  shows "\<forall>x\<in>set ((h @ [\<lparr>pcs = {}\<rparr>])[length h := v]). valid x"
  using assms by (simp add: list_update_append)

lemma union_valid:
  "self < length h \<Longrightarrow> other < length h \<Longrightarrow> \<forall>x\<in>set h. valid x
   \<Longrightarrow> \<forall>x\<in>set (snd (union self other h)). valid x"
  by (simp add: union_def new_PCSet_def list_update_append nth_append valid_def)

lemma intersection_valid:
  "self < length h \<Longrightarrow> other < length h \<Longrightarrow> \<forall>x\<in>set h. valid x
   \<Longrightarrow> \<forall>x\<in>set (snd (intersection self other h)). valid x"
  by (auto simp: intersection_def new_PCSet_def list_update_append nth_append valid_def)

lemma difference_valid:
  "self < length h \<Longrightarrow> other < length h \<Longrightarrow> \<forall>x\<in>set h. valid x
   \<Longrightarrow> \<forall>x\<in>set (snd (difference self other h)). valid x"
  by (auto simp: difference_def new_PCSet_def list_update_append nth_append valid_def)

text \<open>
  C6. Every stored element is in 0..11: the constructor only makes valid objects, and
  \<open>add_pc\<close>, \<open>remove_pc\<close>, \<open>t_n\<close>, \<open>i_n\<close>, \<open>union\<close>, \<open>intersection\<close> and \<open>difference\<close>
  keep every object of the store valid. An argument outside 0..11 is never reduced modulo 12
  and stored: \<open>add_pc\<close> leaves the receiver as it was and the constructor makes no object.
\<close>

theorem elements_always_in_range:
  "(init args = Inr s0 \<longrightarrow> valid s0)
   \<and> (valid s \<longrightarrow> valid (snd (add_pc pc s)) \<and> valid (snd (remove_pc pc s))
        \<and> valid (snd (t_n n s)) \<and> valid (snd (i_n n s)))
   \<and> (self < length h \<and> other < length h \<and> (\<forall>x\<in>set h. valid x) \<longrightarrow>
        (\<forall>x\<in>set (snd (union self other h)). valid x)
        \<and> (\<forall>x\<in>set (snd (intersection self other h)). valid x)
        \<and> (\<forall>x\<in>set (snd (difference self other h)). valid x))
   \<and> (\<not> (0 \<le> pc \<and> pc \<le> 11) \<longrightarrow>
        snd (add_pc pc s) = s \<and> (pc \<in> set args \<longrightarrow> (\<forall>s'. init args \<noteq> Inr s')))"
proof -
  have "snd (add_pc pc s) = s" if "\<not> (0 \<le> pc \<and> pc \<le> 11)"
    using that by (auto simp: add_pc_def check_n_def)
  moreover have "\<forall>s'. init args \<noteq> Inr s'" if "\<not> (0 \<le> pc \<and> pc \<le> 11)" "pc \<in> set args"
  proof -
    from that have "init args = Inl InvalidPitchClass" by (intro init_bad) blast
    then show ?thesis by simp
  qed
  ultimately show ?thesis
    using init_valid [of args s0] add_pc_valid [of s pc] remove_pc_valid [of s pc]
      t_n_valid [of s n] i_n_valid [of s n] union_valid [of self h other]
      intersection_valid [of self h other] difference_valid [of self h other]
    by blast
qed

theorem elements_always_in_range_witness:
  "init [3, 11] = Inr \<lparr>pcs = {3, 11}\<rparr> \<and> valid \<lparr>pcs = {3, 11}\<rparr>
   \<and> valid (snd (add_pc 12 \<lparr>pcs = {3, 11}\<rparr>))
   \<and> snd (add_pc 12 \<lparr>pcs = {3, 11}\<rparr>) = \<lparr>pcs = {3, 11}\<rparr>
   \<and> valid (snd (t_n 5 \<lparr>pcs = {3, 11}\<rparr>))
   \<and> valid (snd (union 0 1 [\<lparr>pcs = {3, 11}\<rparr>, \<lparr>pcs = {0}\<rparr>]) ! 2)"
proof -
  let ?s = "\<lparr>pcs = {3, 11}\<rparr>"
  let ?h = "[?s, \<lparr>pcs = {0}\<rparr>]"
  have i: "init [3, 11] = Inr ?s"
    by (auto simp: init_def bindE_def check_n_def)
  have v: "valid ?s"
    by (simp add: valid_def)
  have h: "0 < length ?h \<and> 1 < length ?h \<and> (\<forall>x\<in>set ?h. valid x)"
    by (simp add: valid_def)
  have n: "\<not> (0 \<le> (12::int) \<and> (12::int) \<le> 11)"
    by simp
  note t = elements_always_in_range [of "[3, 11]" ?s ?s 12 5 0 ?h 1]
  have "snd (union 0 1 ?h) ! 2 \<in> set (snd (union 0 1 ?h))"
    by (rule nth_mem) (simp add: union_def new_PCSet_def)
  with t i v h n show ?thesis
    by blast
qed

section \<open>Removal\<close>

text \<open>
  C10. \<open>remove_pc\<close> never raises, and for an integer that is not a member (inside or
  outside 0..11, since \<open>remove_pc\<close> does not validate) it leaves the receiver as it was.
\<close>

theorem remove_pc_absent_is_noop:
  "fst (remove_pc pc s) = None \<and> (pc \<notin> pcs s \<longrightarrow> remove_pc pc s = (None, s))"
  by (simp add: remove_pc_def set_remove_def)

theorem remove_pc_absent_is_noop_witness:
  "remove_pc 12 \<lparr>pcs = {0, 4}\<rparr> = (None, \<lparr>pcs = {0, 4}\<rparr>)
   \<and> remove_pc 7 \<lparr>pcs = {0, 4}\<rparr> = (None, \<lparr>pcs = {0, 4}\<rparr>)"
  using remove_pc_absent_is_noop [of 12 "\<lparr>pcs = {0, 4}\<rparr>"]
    remove_pc_absent_is_noop [of 7 "\<lparr>pcs = {0, 4}\<rparr>"]
  by simp

section \<open>Transposition and inversion\<close>

lemma transpose_back:
  fixes pc n :: int
  assumes "0 \<le> pc" "pc \<le> 11"
  shows "((pc + n) mod 12 + (12 - n) mod 12) mod 12 = pc"
proof -
  have "((pc + n) mod 12 + (12 - n) mod 12) mod 12 = ((pc + n) + (12 - n)) mod 12"
    by (simp add: mod_add_eq)
  also have "\<dots> = pc mod 12" by simp
  also have "\<dots> = pc" using assms by simp
  finally show ?thesis .
qed

lemma invert_back:
  fixes pc n :: int
  assumes "0 \<le> pc" "pc \<le> 11"
  shows "(n - (n - pc) mod 12) mod 12 = pc"
proof -
  have "(n - (n - pc) mod 12) mod 12 = (n - (n - pc)) mod 12"
    by (simp add: mod_diff_right_eq)
  also have "\<dots> = pc" using assms by simp
  finally show ?thesis .
qed

lemma image_restores:
  assumes "S \<subseteq> {0..11::int}" and "\<And>pc. 0 \<le> pc \<Longrightarrow> pc \<le> 11 \<Longrightarrow> g (f pc) = pc"
  shows "g ` f ` S = S"
proof -
  have "g (f pc) = pc" if "pc \<in> S" for pc
    using that assms by auto
  then show ?thesis by (force simp: image_image)
qed

text \<open>
  C8. On a valid set and for \<open>n\<close> in 0..11, \<open>t_n(n)\<close> followed by \<open>t_n((12 - n) mod 12)\<close>
  restores the element set, and so does \<open>i_n(n)\<close> applied twice; none of the calls raises.
\<close>

theorem t_n_invertible_i_n_involution:
  assumes "valid s" and "0 \<le> n" and "n \<le> 11"
  shows "fst (t_n n s) = None
    \<and> t_n ((12 - n) mod 12) (snd (t_n n s)) = (None, s)
    \<and> fst (i_n n s) = None
    \<and> i_n n (snd (i_n n s)) = (None, s)"
proof -
  from assms(1) have S: "pcs s \<subseteq> {0..11}" by (simp add: valid_def)
  have m: "0 \<le> (12 - n) mod 12" "(12 - n) mod 12 \<le> 11" by simp_all
  have t: "(\<lambda>pc. (pc + (12 - n) mod 12) mod 12) ` (\<lambda>pc. (pc + n) mod 12) ` pcs s = pcs s"
    by (rule image_restores [OF S]) (rule transpose_back)
  have i: "(\<lambda>pc. (n - pc) mod 12) ` (\<lambda>pc. (n - pc) mod 12) ` pcs s = pcs s"
    by (rule image_restores [OF S]) (rule invert_back)
  show ?thesis
    using assms(2,3) m t i by (simp add: t_n_def i_n_def check_n_def)
qed

theorem t_n_invertible_i_n_involution_witness:
  "valid \<lparr>pcs = {0, 4, 7}\<rparr>
   \<and> t_n ((12 - 5) mod 12) (snd (t_n 5 \<lparr>pcs = {0, 4, 7}\<rparr>)) = (None, \<lparr>pcs = {0, 4, 7}\<rparr>)
   \<and> i_n 5 (snd (i_n 5 \<lparr>pcs = {0, 4, 7}\<rparr>)) = (None, \<lparr>pcs = {0, 4, 7}\<rparr>)"
proof -
  have v: "valid \<lparr>pcs = {0, 4, 7}\<rparr>" by (simp add: valid_def)
  show ?thesis
    using v t_n_invertible_i_n_involution [OF v, of 5] by simp
qed

section \<open>Set algebra\<close>

text \<open>
  C9. \<open>union\<close>, \<open>intersection\<close> and \<open>difference\<close> return a reference that was not in use
  before the call, leave every object that existed before the call (both operands among them)
  as it was, and the new object holds the union, intersection or difference of the operands'
  element sets. The union is a superset of both operands, and
  \<open>A.difference(B).intersection(B)\<close> is the empty set.
\<close>

theorem set_algebra_new_instance:
  assumes "self < length h" and "other < length h"
  shows "fst (union self other h) = length h
    \<and> fst (intersection self other h) = length h
    \<and> fst (difference self other h) = length h
    \<and> (\<forall>r<length h. snd (union self other h) ! r = h ! r
          \<and> snd (intersection self other h) ! r = h ! r
          \<and> snd (difference self other h) ! r = h ! r)
    \<and> pcs (snd (union self other h) ! length h) = pcs (h ! self) \<union> pcs (h ! other)
    \<and> pcs (snd (intersection self other h) ! length h) = pcs (h ! self) \<inter> pcs (h ! other)
    \<and> pcs (snd (difference self other h) ! length h) = pcs (h ! self) - pcs (h ! other)
    \<and> issuperset (snd (union self other h) ! length h) (snd (union self other h) ! self)
    \<and> issuperset (snd (union self other h) ! length h) (snd (union self other h) ! other)
    \<and> (let (d, h1) = difference self other h; (r, h2) = intersection d other h1
       in pcs (h2 ! r) = {} \<and> r \<noteq> d \<and> h2 ! self = h ! self \<and> h2 ! other = h ! other)"
  using assms
  by (auto simp: union_def intersection_def difference_def new_PCSet_def issuperset_def
      nth_append list_update_append)

theorem set_algebra_new_instance_witness:
  "(0::nat) < length [\<lparr>pcs = {10, 4, 9, 6}\<rparr>, \<lparr>pcs = {4, 1, 8, 2}\<rparr>]
   \<and> (1::nat) < length [\<lparr>pcs = {10, 4, 9, 6}\<rparr>, \<lparr>pcs = {4, 1, 8, 2}\<rparr>]
   \<and> fst (union 0 1 [\<lparr>pcs = {10, 4, 9, 6}\<rparr>, \<lparr>pcs = {4, 1, 8, 2}\<rparr>])
       = length [\<lparr>pcs = {10, 4, 9, 6}\<rparr>, \<lparr>pcs = {4, 1, 8, 2}\<rparr>]"
proof -
  let ?h = "[\<lparr>pcs = {10, 4, 9, 6}\<rparr>, \<lparr>pcs = {4, 1, 8, 2}\<rparr>]"
  have a: "0 < length ?h" and b: "1 < length ?h" by simp_all
  have "fst (union 0 1 ?h) = length ?h"
    by (rule set_algebra_new_instance [OF a b, THEN conjunct1])
  with a b show ?thesis by blast
qed

section \<open>The empty set\<close>

text \<open>
  C4. On the empty set (the object that \<open>PCSet()\<close> makes, whose only iteration order is the
  empty one) \<open>normal_order\<close> and \<open>prime_form\<close> raise the \<open>ValueError\<close> of \<open>min\<close> on an
  empty sequence; \<open>interval_class_vector\<close> returns six zeros.
\<close>

theorem descriptors_of_empty_set:
  "init [] = Inr \<lparr>pcs = {}\<rparr>
   \<and> normal_order \<lparr>pcs = {}\<rparr> = Inl (ValueError ''min() arg is an empty sequence'')
   \<and> iterates [] (pcs \<lparr>pcs = {}\<rparr>) \<and> iterates [] (inverted_pcs (pcs \<lparr>pcs = {}\<rparr>))
   \<and> prime_form [] [] = Inl (ValueError ''min() arg is an empty sequence'')
   \<and> interval_class_vector [] = Inr [0, 0, 0, 0, 0, 0]"
  by (simp add: init_def normal_order_def prime_form_def interval_class_vector_def bindE_def
      iterates_def inverted_pcs_def numeral_eq_Suc)

section \<open>Normal order\<close>

lemma py_min_nonempty: "xs \<noteq> [] \<Longrightarrow> py_min xs = Inr (Min (set xs))"
  by (cases xs) (simp_all add: Min.set_eq_fold [symmetric])

lemma py_index_first:
  "v \<in> set xs \<Longrightarrow>
     \<exists>i. py_index xs v = Inr i \<and> i < length xs \<and> xs ! i = v \<and> (\<forall>j<i. xs ! j \<noteq> v)"
proof (induction xs)
  case Nil
  then show ?case by simp
next
  case (Cons x xs)
  show ?case
  proof (cases "x = v")
    case True
    then show ?thesis by simp
  next
    case False
    with Cons.prems have "v \<in> set xs" by simp
    then obtain i where i: "py_index xs v = Inr i" "i < length xs" "xs ! i = v"
        "\<forall>j<i. xs ! j \<noteq> v"
      using Cons.IH by blast
    have "\<forall>j<Suc i. (x # xs) ! j \<noteq> v"
    proof (intro allI impI)
      fix j assume "j < Suc i"
      then show "(x # xs) ! j \<noteq> v"
        using False i(4) by (cases j) simp_all
    qed
    with False i(1,2,3) show ?thesis by (simp add: bindE_def)
  qed
qed

lemma scores_are_score:
  assumes "finite S"
  shows "sum_list (map (\<lambda>pc_b. shl1 ((pc_b - a) mod 12)) (sorted_list_of_set S)) = score S a"
proof -
  have "sum_list (map (\<lambda>pc_b. shl1 ((pc_b - a) mod 12)) (sorted_list_of_set S))
      = (\<Sum>b\<in>set (sorted_list_of_set S). shl1 ((b - a) mod 12))"
    by (rule sum_list_distinct_conv_sum_set) simp
  with assms show ?thesis by (simp add: score_def shl1_def)
qed

lemma valid_finite: "valid s \<Longrightarrow> finite (pcs s)"
  unfolding valid_def by (rule finite_subset [where B = "{0..11}"]) simp_all

lemma normal_order_general:
  assumes "finite (pcs s)" and "pcs s \<noteq> {}"
  shows "\<exists>i<length (sorted_list_of_set (pcs s)).
      normal_order s = Inr (rotate i (sorted_list_of_set (pcs s)))
      \<and> (\<forall>a\<in>pcs s. score (pcs s) (sorted_list_of_set (pcs s) ! i) \<le> score (pcs s) a)
      \<and> (\<forall>j<i. score (pcs s) (sorted_list_of_set (pcs s) ! i)
                 < score (pcs s) (sorted_list_of_set (pcs s) ! j))"
proof -
  define sp where "sp = sorted_list_of_set (pcs s)"
  define scores where "scores = map (score (pcs s)) sp"
  have sp_set: "set sp = pcs s" and sp_ne: "sp \<noteq> []"
    using assms by (simp_all add: sp_def)
  have scores_eq: "map (\<lambda>pc_a. sum_list (map (\<lambda>pc_b. shl1 ((pc_b - pc_a) mod 12)) sp)) sp = scores"
    using assms(1) by (simp add: scores_def sp_def scores_are_score)
  have ne: "scores \<noteq> []" using sp_ne by (simp add: scores_def)
  then have m: "py_min scores = Inr (Min (set scores))" by (rule py_min_nonempty)
  have "Min (set scores) \<in> set scores" using ne by (intro Min_in) simp_all
  then obtain i where i: "py_index scores (Min (set scores)) = Inr i" "i < length scores"
      "scores ! i = Min (set scores)" "\<forall>j<i. scores ! j \<noteq> Min (set scores)"
    using py_index_first by blast
  have len: "length scores = length sp" by (simp add: scores_def)
  have no: "normal_order s = Inr (rotate i sp)"
    using i(1,2) m scores_eq len
    by (simp add: normal_order_def Let_def sp_def [symmetric] bindE_def rotate_list_def
        rotate_drop_take)
  have le: "scores ! i \<le> score (pcs s) a" if "a \<in> pcs s" for a
  proof -
    from that have "score (pcs s) a \<in> set scores" by (simp add: scores_def sp_set)
    then show ?thesis unfolding i(3) by (intro Min_le) simp_all
  qed
  have lt: "scores ! i < scores ! j" if "j < i" for j
  proof -
    from that i(2) have "scores ! j \<in> set scores" by simp
    then have "Min (set scores) \<le> scores ! j" by (intro Min_le) simp_all
    with i(3,4) that show ?thesis by force
  qed
  have nth: "scores ! j = score (pcs s) (sp ! j)" if "j < length sp" for j
    using that by (simp add: scores_def)
  from i(2) len have il: "i < length sp" by simp
  show ?thesis
    unfolding sp_def [symmetric]
  proof (intro exI [of _ i] conjI il no ballI allI impI)
    fix a assume "a \<in> pcs s"
    then show "score (pcs s) (sp ! i) \<le> score (pcs s) a"
      using le nth [OF il] by simp
  next
    fix j assume "j < i"
    then show "score (pcs s) (sp ! i) < score (pcs s) (sp ! j)"
      using lt [of j] nth [OF il] nth [of j] il by simp
  qed
qed

lemma init_10_4_9_6: "init [10, 4, 9, 6] = Inr \<lparr>pcs = {10, 4, 9, 6}\<rparr>"
  by (auto simp: init_def bindE_def check_n_def)

lemma normal_order_10_4_9_6: "normal_order \<lparr>pcs = {10, 4, 9, 6}\<rparr> = Inr [4, 6, 9, 10]"
  by code_simp

text \<open>
  C1. For a non-empty valid set, \<open>normal_order\<close> returns the ascending list of the elements
  rotated to begin at a position \<open>i\<close> whose element minimises
  \<open>score a = (\<Sum>b\<in>S. 2 ^ ((b - a) mod 12))\<close> over the set, and \<open>i\<close> is the first such position:
  every earlier element has a strictly larger score. In particular
  \<open>PCSet(10, 4, 9, 6).normal_order\<close> is \<open>[4, 6, 9, 10]\<close>.
\<close>

theorem normal_order_minimal_rotation:
  "(valid s \<and> pcs s \<noteq> {} \<longrightarrow>
     (\<exists>i<length (sorted_list_of_set (pcs s)).
        normal_order s = Inr (rotate i (sorted_list_of_set (pcs s)))
        \<and> (\<forall>a\<in>pcs s. score (pcs s) (sorted_list_of_set (pcs s) ! i) \<le> score (pcs s) a)
        \<and> (\<forall>j<i. score (pcs s) (sorted_list_of_set (pcs s) ! i)
                   < score (pcs s) (sorted_list_of_set (pcs s) ! j))))
   \<and> (\<exists>s'. init [10, 4, 9, 6] = Inr s' \<and> normal_order s' = Inr [4, 6, 9, 10])"
  using normal_order_general [of s] valid_finite [of s] init_10_4_9_6 normal_order_10_4_9_6 by simp

theorem normal_order_minimal_rotation_witness:
  "valid \<lparr>pcs = {0, 4, 8}\<rparr> \<and> pcs \<lparr>pcs = {0, 4, 8}\<rparr> \<noteq> {}
   \<and> (\<exists>i<length (sorted_list_of_set (pcs \<lparr>pcs = {0, 4, 8}\<rparr>)).
        normal_order \<lparr>pcs = {0, 4, 8}\<rparr>
          = Inr (rotate i (sorted_list_of_set (pcs \<lparr>pcs = {0, 4, 8}\<rparr>))))"
proof -
  have v: "valid \<lparr>pcs = {0, 4, 8}\<rparr> \<and> pcs \<lparr>pcs = {0, 4, 8}\<rparr> \<noteq> {}"
    by (simp add: valid_def)
  from normal_order_minimal_rotation [of "\<lparr>pcs = {0, 4, 8}\<rparr>"] v show ?thesis
    by blast
qed

section \<open>Interval-class vector\<close>

lemma interval_class_sym: "interval_class b a = interval_class a b"
proof -
  have "(a - b) mod 12 = (if (b - a) mod 12 = 0 then 0 else 12 - (b - a) mod 12)"
    using zmod_zminus1_eq_if [of "b - a" 12] by simp
  then show ?thesis
    unfolding interval_class_def by (simp add: min_def)
qed

lemma folded_interval:
  fixes a b :: int
  assumes "0 \<le> a" "a \<le> 11" "0 \<le> b" "b \<le> 11" "a \<noteq> b"
  shows "(if (b - a) mod 12 > 6 then (- ((b - a) mod 12)) mod 12 else (b - a) mod 12)
           = interval_class a b"
    and "1 \<le> interval_class a b" and "interval_class a b \<le> 6"
proof -
  have "(b - a) mod 12 \<noteq> 0"
  proof
    assume "(b - a) mod 12 = 0"
    then have "12 dvd (b - a)" by presburger
    with assms show False by presburger
  qed
  moreover have "0 \<le> (b - a) mod 12" "(b - a) mod 12 < 12" by simp_all
  ultimately have r: "1 \<le> (b - a) mod 12" "(b - a) mod 12 \<le> 11" by linarith+
  define d where "d = (b - a) mod 12"
  have neg: "(- d) mod 12 = 12 - d" using r unfolding d_def [symmetric]
    by (simp add: zmod_zminus1_eq_if)
  show "(if (b - a) mod 12 > 6 then (- ((b - a) mod 12)) mod 12 else (b - a) mod 12)
           = interval_class a b"
    unfolding interval_class_def d_def [symmetric] using neg r [folded d_def] by auto
  show "1 \<le> interval_class a b" "interval_class a b \<le> 6"
    unfolding interval_class_def d_def [symmetric] using r [folded d_def] by auto
qed


lemma sum_list_incr: "i < length r \<Longrightarrow> sum_list (r[i := r ! i + 1]) = sum_list r + (1::int)"
  by (induction r arbitrary: i) (auto split: nat.splits)

lemma incr_at_class:
  assumes "length r = 6" "1 \<le> c" "c \<le> 6"
  shows "incr_at r (c - 1) = Inr (r[nat (c - 1) := r ! nat (c - 1) + 1])"
  using assms by (simp add: incr_at_def Let_def)

lemma icv_loop_counts:
  assumes "\<forall>p\<in>set ps. pitch_class_pair p" and "length r = 6"
  shows "\<exists>r'. icv_loop ps r = Inr r' \<and> length r' = 6
     \<and> (\<forall>k. 1 \<le> k \<and> k \<le> 6 \<longrightarrow>
          r' ! nat (k - 1)
            = r ! nat (k - 1) + int (length (filter (\<lambda>(a, b). interval_class a b = k) ps)))
     \<and> sum_list r' = sum_list r + int (length ps)"
  using assms
proof (induction ps arbitrary: r)
  case Nil
  then show ?case by simp
next
  case (Cons p ps)
  obtain a b where p: "p = (a, b)" by (cases p)
  from Cons.prems(1) p have ab: "0 \<le> a" "a \<le> 11" "0 \<le> b" "b \<le> 11" "a \<noteq> b"
    by (simp_all add: pitch_class_pair_def)
  define c where "c = interval_class a b"
  have c: "1 \<le> c" "c \<le> 6" unfolding c_def using folded_interval(2,3) [OF ab] by simp_all
  define r1 where "r1 = r[nat (c - 1) := r ! nat (c - 1) + 1]"
  have step: "icv_loop (p # ps) r = icv_loop ps r1"
    using folded_interval(1) [OF ab] incr_at_class [OF Cons.prems(2) c]
    by (simp add: p Let_def bindE_def c_def [symmetric] r1_def)
  have len1: "length r1 = 6" using Cons.prems(2) by (simp add: r1_def)
  from Cons.prems(1) have "\<forall>p\<in>set ps. pitch_class_pair p" by simp
  from Cons.IH [OF this len1] obtain r' where r': "icv_loop ps r1 = Inr r'" "length r' = 6"
      "\<forall>k. 1 \<le> k \<and> k \<le> 6 \<longrightarrow>
          r' ! nat (k - 1)
            = r1 ! nat (k - 1) + int (length (filter (\<lambda>(a, b). interval_class a b = k) ps))"
      "sum_list r' = sum_list r1 + int (length ps)"
    by blast
  have idx: "nat (c - 1) < length r" using c Cons.prems(2) by simp
  have r1_nth: "r1 ! nat (k - 1) = r ! nat (k - 1) + (if k = c then 1 else 0)"
    if "1 \<le> k" "k \<le> 6" for k
  proof (cases "k = c")
    case True
    then show ?thesis using idx by (simp add: r1_def)
  next
    case False
    with that c have "nat (k - 1) \<noteq> nat (c - 1)" by simp
    with False show ?thesis by (simp add: r1_def)
  qed
  have sum1: "sum_list r1 = sum_list r + 1"
    unfolding r1_def using idx by (rule sum_list_incr)
  have "r' ! nat (k - 1)
      = r ! nat (k - 1) + int (length (filter (\<lambda>(a, b). interval_class a b = k) (p # ps)))"
    if "1 \<le> k \<and> k \<le> 6" for k
    using r'(3) that r1_nth [of k] by (simp add: p c_def)
  moreover have "sum_list r' = sum_list r + int (length (p # ps))"
    using r'(4) sum1 by simp
  ultimately show ?case using step r'(1,2) by simp
qed

lemma combinations2_set:
  "distinct xs \<Longrightarrow> (a, b) \<in> set (combinations2 xs) \<Longrightarrow> a \<in> set xs \<and> b \<in> set xs \<and> a \<noteq> b"
  by (induction xs) auto

lemma combinations2_length: "length (combinations2 xs) = length xs choose 2"
  by (induction xs) (simp_all add: numeral_2_eq_2)

lemma count_pairs:
  fixes xs :: "int list"
  assumes "distinct xs" and sym: "\<And>a b. P a b = P b a"
  shows "length (filter (\<lambda>(a, b). P a b) (combinations2 xs))
       = card {(a, b). a \<in> set xs \<and> b \<in> set xs \<and> a < b \<and> P a b}"
  using assms(1)
proof (induction xs)
  case Nil
  then show ?case by simp
next
  case (Cons x xs)
  let ?T = "{(a, b). a \<in> set xs \<and> b \<in> set xs \<and> a < b \<and> P a b}"
  let ?B = "{b \<in> set xs. P x b}"
  let ?f = "\<lambda>b. if x < b then (x, b) else (b, x)"
  from Cons.prems have x: "x \<notin> set xs" and d: "distinct xs" by simp_all
  have "filter (\<lambda>(a, b). P a b) (map (Pair x) xs) = map (Pair x) (filter (P x) xs)"
    by (induction xs) simp_all
  then have l: "length (filter (\<lambda>(a, b). P a b) (map (Pair x) xs)) = card ?B"
    using d by (simp add: distinct_length_filter Int_def conj_commute)
  have inj: "inj_on ?f ?B"
    by (rule inj_onI) (auto split: if_splits)
  have cardA: "card (?f ` ?B) = card ?B"
    using inj by (rule card_image)
  have finT: "finite ?T"
    by (rule finite_subset [where B = "set xs \<times> set xs"]) auto
  have finA: "finite (?f ` ?B)" by simp
  have disj: "?T \<inter> ?f ` ?B = {}"
    using x by (auto split: if_splits)
  have eq: "{(a, b). a \<in> set (x # xs) \<and> b \<in> set (x # xs) \<and> a < b \<and> P a b} = ?T \<union> ?f ` ?B"
  proof (intro set_eqI iffI)
    fix p assume "p \<in> {(a, b). a \<in> set (x # xs) \<and> b \<in> set (x # xs) \<and> a < b \<and> P a b}"
    then obtain a b where p: "p = (a, b)" "a \<in> set (x # xs)" "b \<in> set (x # xs)" "a < b" "P a b"
      by auto
    show "p \<in> ?T \<union> ?f ` ?B"
    proof (cases "a = x")
      case True
      with p have "b \<in> ?B" by auto
      moreover from True p have "p = ?f b" by simp
      ultimately have "p \<in> ?f ` ?B" by (rule image_eqI [rotated])
      then show ?thesis by simp
    next
      case False
      show ?thesis
      proof (cases "b = x")
        case True
        with p False sym [of a b] have "a \<in> ?B" by auto
        moreover from True p have "p = ?f a" by simp
        ultimately have "p \<in> ?f ` ?B" by (rule image_eqI [rotated])
        then show ?thesis by simp
      next
        case False
        with \<open>a \<noteq> x\<close> p show ?thesis by auto
      qed
    qed
  next
    fix p assume "p \<in> ?T \<union> ?f ` ?B"
    moreover have "b < x" if "b \<in> set xs" "\<not> x < b" for b
      using that x by (cases "b = x") auto
    ultimately show "p \<in> {(a, b). a \<in> set (x # xs) \<and> b \<in> set (x # xs) \<and> a < b \<and> P a b}"
      using sym by (auto split: if_splits)
  qed
  have "length (filter (\<lambda>(a, b). P a b) (combinations2 (x # xs)))
      = card ?B + card ?T"
    using l Cons.IH [OF d] by simp
  also have "\<dots> = card (?T \<union> ?f ` ?B)"
    using card_Un_disjoint [OF finT finA disj] cardA by simp
  finally show ?case using eq by simp
qed


lemma interval_class_vector_general:
  assumes "valid s" and "iterates xs (pcs s)"
  shows "\<exists>v. interval_class_vector xs = Inr v \<and> length v = 6
     \<and> (\<forall>k. 1 \<le> k \<and> k \<le> 6 \<longrightarrow> v ! nat (k - 1) = int (card (pairs_of_class (pcs s) k)))
     \<and> sum_list v = int (card (pcs s) choose 2)"
proof -
  from assms(2) have d: "distinct xs" and sx: "set xs = pcs s"
    by (simp_all add: iterates_def)
  from assms(1) sx have range: "\<And>a. a \<in> set xs \<Longrightarrow> 0 \<le> a \<and> a \<le> 11"
    by (auto simp: valid_def)
  have pairs: "\<forall>p\<in>set (combinations2 xs). pitch_class_pair p"
  proof
    fix p assume p: "p \<in> set (combinations2 xs)"
    obtain a b where ab: "p = (a, b)" by (cases p)
    from combinations2_set [OF d] p ab have "a \<in> set xs \<and> b \<in> set xs \<and> a \<noteq> b" by blast
    with range [of a] range [of b] ab show "pitch_class_pair p"
      by (simp add: pitch_class_pair_def)
  qed
  have len0: "length (replicate 6 (0::int)) = 6" by simp
  from icv_loop_counts [OF pairs len0] obtain v where v:
    "icv_loop (combinations2 xs) (replicate 6 0) = Inr v" "length v = 6"
    "\<forall>k. 1 \<le> k \<and> k \<le> 6 \<longrightarrow>
       v ! nat (k - 1) = replicate 6 0 ! nat (k - 1)
         + int (length (filter (\<lambda>(a, b). interval_class a b = k) (combinations2 xs)))"
    "sum_list v = sum_list (replicate 6 0) + int (length (combinations2 xs))"
    by blast
  have cnt: "length (filter (\<lambda>(a, b). interval_class a b = k) (combinations2 xs))
      = card (pairs_of_class (pcs s) k)" for k
  proof -
    have "(interval_class a b = k) = (interval_class b a = k)" for a b
      by (simp add: interval_class_sym [of a b])
    from count_pairs [OF d, of "\<lambda>a b. interval_class a b = k", OF this]
    show ?thesis by (simp add: pairs_of_class_def sx)
  qed
  have nth: "v ! nat (k - 1) = int (card (pairs_of_class (pcs s) k))" if "1 \<le> k \<and> k \<le> 6" for k
  proof -
    from that have "nat (k - 1) < 6" by linarith
    then have "replicate 6 (0::int) ! nat (k - 1) = 0" by simp
    with v(3) that cnt [of k] show ?thesis by simp
  qed
  have "sum_list (replicate 6 (0::int)) = 0"
    by (simp add: sum_list_replicate)
  then have "sum_list v = int (card (pcs s) choose 2)"
    using v(4) distinct_card [OF d] by (simp add: combinations2_length sx)
  with v(1,2) nth show ?thesis
    by (simp add: interval_class_vector_def)
qed

lemma iterates_two:
  assumes "iterates xs {a, b}" and "a \<noteq> b"
  shows "xs = [a, b] \<or> xs = [b, a]"
proof -
  from assms have d: "distinct xs" and sx: "set xs = {a, b}" by (simp_all add: iterates_def)
  from distinct_card [OF d] sx assms(2) have "length xs = 2" by simp
  then obtain u w where xs: "xs = [u, w]"
    by (auto simp: numeral_2_eq_2 length_Suc_conv)
  with sx have "{u, w} = {a, b}" by simp
  then show ?thesis unfolding xs by (auto simp: doubleton_eq_iff)
qed

lemma icv_tritone:
  "interval_class_vector [0, 6] = Inr [0, 0, 0, 0, 0, 1]"
  "interval_class_vector [6, 0] = Inr [0, 0, 0, 0, 0, 1]"
  by code_simp+

text \<open>
  C3. For a valid set, whatever the order in which the set is iterated,
  \<open>interval_class_vector\<close> returns six counts, the count at index \<open>k - 1\<close> being the number
  of unordered pairs of distinct elements (each represented once, as \<open>a < b\<close>) whose interval
  class \<open>min ivl (12 - ivl)\<close> is \<open>k\<close>; the tritone, class 6, is counted at index 5. The
  counts sum to \<open>card S choose 2\<close>, and \<open>PCSet(0, 6).interval_class_vector\<close> is
  \<open>[0, 0, 0, 0, 0, 1]\<close>.
\<close>

theorem interval_class_vector_counts_pairs:
  "(valid s \<and> iterates xs (pcs s) \<longrightarrow>
      (\<exists>v. interval_class_vector xs = Inr v \<and> length v = 6
         \<and> (\<forall>k. 1 \<le> k \<and> k \<le> 6 \<longrightarrow>
               v ! nat (k - 1) = int (card (pairs_of_class (pcs s) k)))
         \<and> sum_list v = int (card (pcs s) choose 2)))
   \<and> (\<exists>s'. init [0, 6] = Inr s'
         \<and> (\<forall>ys. iterates ys (pcs s') \<longrightarrow> interval_class_vector ys = Inr [0, 0, 0, 0, 0, 1]))"
proof -
  have i: "init [0, 6] = Inr \<lparr>pcs = {0, 6}\<rparr>"
    by (auto simp: init_def bindE_def check_n_def)
  have "interval_class_vector ys = Inr [0, 0, 0, 0, 0, 1]" if "iterates ys {0, 6}" for ys
    using iterates_two [OF that] icv_tritone by auto
  with i interval_class_vector_general [of s xs] show ?thesis by simp
qed

theorem interval_class_vector_counts_pairs_witness:
  "valid \<lparr>pcs = {0, 4, 8}\<rparr> \<and> iterates [8, 0, 4] (pcs \<lparr>pcs = {0, 4, 8}\<rparr>)
   \<and> interval_class_vector [8, 0, 4] = Inr [0, 0, 0, 3, 0, 0]
   \<and> (\<exists>v. interval_class_vector [8, 0, 4] = Inr v
         \<and> sum_list v = int (card (pcs \<lparr>pcs = {0, 4, 8}\<rparr>) choose 2))"
proof -
  have v: "valid \<lparr>pcs = {0, 4, 8}\<rparr> \<and> iterates [8, 0, 4] (pcs \<lparr>pcs = {0, 4, 8}\<rparr>)"
    by (auto simp: valid_def iterates_def)
  have e: "interval_class_vector [8, 0, 4] = Inr [0, 0, 0, 3, 0, 0]"
    by code_simp
  from interval_class_vector_counts_pairs [of "\<lparr>pcs = {0, 4, 8}\<rparr>" "[8, 0, 4]"] v e
  show ?thesis by blast
qed

section \<open>Prime form\<close>

lemma residue_inj:
  fixes a b b' :: int
  assumes "0 \<le> b" "b \<le> 11" "0 \<le> b'" "b' \<le> 11" "(b - a) mod 12 = (b' - a) mod 12"
  shows "b = b'"
proof -
  from assms(5) have "12 dvd (b - a) - (b' - a)"
    by (simp only: mod_eq_dvd_iff)
  then have "12 dvd b - b'" by simp
  then obtain k where "b - b' = 12 * k" by (rule dvdE)
  with assms(1-4) show ?thesis by arith
qed

lemma sort_map_candidate:
  assumes "S \<subseteq> {0..11}" and "iterates xs S"
  shows "sort (map (\<lambda>pc_b. (pc_b - a) mod 12) xs) = candidate S a"
proof -
  from assms(2) have d: "distinct xs" and sx: "set xs = S" by (simp_all add: iterates_def)
  have "inj_on (\<lambda>b. (b - a) mod 12) (set xs)"
  proof (rule inj_onI)
    fix b b' assume "b \<in> set xs" "b' \<in> set xs" "(b - a) mod 12 = (b' - a) mod 12"
    with assms(1) sx show "b = b'" by (intro residue_inj [of b b' a]) auto
  qed
  with d have "distinct (map (\<lambda>b. (b - a) mod 12) xs)" by (simp add: distinct_map)
  then have "remdups (map (\<lambda>b. (b - a) mod 12) xs) = map (\<lambda>b. (b - a) mod 12) xs"
    by (rule distinct_remdups_id)
  with sorted_list_of_set_sort_remdups [of "map (\<lambda>b. (b - a) mod 12) xs"]
  show ?thesis by (simp add: candidate_def sx)
qed

lemma candidate_props:
  assumes "finite S"
  shows "sorted (candidate S a)" "distinct (candidate S a)"
    "set (candidate S a) = (\<lambda>b. (b - a) mod 12) ` S"
  using assms by (simp_all add: candidate_def)

lemma int_nat_image:
  assumes "\<forall>v\<in>A. 0 \<le> v"
  shows "int ` nat ` A = A"
proof -
  have "int (nat v) = v" if "v \<in> A" for v
    using that assms by simp
  then show ?thesis by (force simp: image_image)
qed

lemma weight_set_encode:
  assumes "distinct c" and "\<forall>v\<in>set c. 0 \<le> v"
  shows "weight c = int (set_encode (nat ` set c))"
proof -
  have inj: "inj_on nat (set c)"
  proof (rule inj_onI)
    fix x y assume "x \<in> set c" "y \<in> set c" "nat x = nat y"
    with assms(2) have "0 \<le> x" "0 \<le> y" "int (nat x) = int (nat y)" by simp_all
    then show "x = y" by simp
  qed
  have "weight c = (\<Sum>v\<in>set c. 2 ^ nat v)"
    unfolding weight_def using assms(1) by (rule sum_list_distinct_conv_sum_set)
  also have "\<dots> = (\<Sum>n\<in>nat ` set c. 2 ^ n)"
    using inj by (simp add: sum.reindex)
  also have "\<dots> = int (set_encode (nat ` set c))"
    by (simp add: set_encode_def)
  finally show ?thesis .
qed

lemma weight_inj:
  assumes "sorted c" "distinct c" "\<forall>v\<in>set c. 0 \<le> v"
    and "sorted c'" "distinct c'" "\<forall>v\<in>set c'. 0 \<le> v"
    and "weight c = weight c'"
  shows "c = c'"
proof -
  from assms(7) have "int (set_encode (nat ` set c)) = int (set_encode (nat ` set c'))"
    using weight_set_encode [OF assms(2,3)] weight_set_encode [OF assms(5,6)] by simp
  then have "set_encode (nat ` set c) = set_encode (nat ` set c')"
    by (simp only: of_nat_eq_iff)
  then have eq: "nat ` set c = nat ` set c'"
    by (simp add: set_encode_eq)
  have "set c = int ` nat ` set c" "set c' = int ` nat ` set c'"
    using assms(3,6) by (simp_all add: int_nat_image)
  with eq have "set c = set c'" by simp
  with assms(1,2,4,5) show ?thesis by (intro sorted_distinct_set_unique)
qed

lemma candidates_weight_inj:
  assumes "finite S" "finite S'" "c \<in> candidates S \<union> candidates S'"
    "c' \<in> candidates S \<union> candidates S'" "weight c = weight c'"
  shows "c = c'"
proof -
  have props: "sorted d \<and> distinct d \<and> (\<forall>v\<in>set d. 0 \<le> v)"
    if "d \<in> candidates S \<union> candidates S'" for d
  proof -
    from that obtain R a where "finite R" "d = candidate R a"
      using assms(1,2) by (auto simp: candidates_def)
    then show ?thesis using candidate_props [of R a] by auto
  qed
  from props [OF assms(3)] props [OF assms(4)] assms(5) show ?thesis
    by (intro weight_inj) simp_all
qed


lemma weight_shl1: "sum_list (map shl1 lst) = weight lst"
  by (simp add: weight_def shl1_def [abs_def])

lemma pick_min:
  assumes "cs \<noteq> []"
  shows "py_min (map weight cs) = Inr (Min (weight ` set cs))"
    and "\<exists>c. bindE (py_index (map weight cs) (Min (weight ` set cs))) (py_nth cs) = Inr c
            \<and> c \<in> set cs \<and> weight c = Min (weight ` set cs)"
proof -
  from assms have ne: "map weight cs \<noteq> []" by simp
  from py_min_nonempty [OF ne] show m: "py_min (map weight cs) = Inr (Min (weight ` set cs))"
    by simp
  have "Min (weight ` set cs) \<in> weight ` set cs"
    using assms by (intro Min_in) simp_all
  then have "Min (weight ` set cs) \<in> set (map weight cs)" by simp
  from py_index_first [OF this] obtain i where i:
    "py_index (map weight cs) (Min (weight ` set cs)) = Inr i" "i < length (map weight cs)"
    "map weight cs ! i = Min (weight ` set cs)"
    by blast
  from i(2) have il: "i < length cs" by simp
  with i(3) have "weight (cs ! i) = Min (weight ` set cs)" by simp
  moreover from il have "cs ! i \<in> set cs" by simp
  moreover from i(1) il
  have "bindE (py_index (map weight cs) (Min (weight ` set cs))) (py_nth cs) = Inr (cs ! i)"
    by (simp add: bindE_def py_nth_def)
  ultimately show "\<exists>c. bindE (py_index (map weight cs) (Min (weight ` set cs))) (py_nth cs) = Inr c
            \<and> c \<in> set cs \<and> weight c = Min (weight ` set cs)"
    by blast
qed

lemma inverted_pcs_range: "inverted_pcs S \<subseteq> {0..11}"
  by (auto simp: inverted_pcs_def)

lemma prime_form_char:
  assumes "S \<subseteq> {0..11}" and "S \<noteq> {}" and "iterates xs S" and "iterates ys (inverted_pcs S)"
  shows "\<exists>c. prime_form xs ys = Inr c
     \<and> (if Min (weight ` candidates S) \<le> Min (weight ` candidates (inverted_pcs S))
        then c \<in> candidates S \<and> weight c = Min (weight ` candidates S)
        else c \<in> candidates (inverted_pcs S)
             \<and> weight c = Min (weight ` candidates (inverted_pcs S)))"
proof -
  let ?I = "inverted_pcs S"
  define ts where "ts = map (candidate S) xs"
  define ivs where "ivs = map (candidate ?I) ys"
  from assms(3) have sx: "set xs = S" by (simp add: iterates_def)
  from assms(4) have sy: "set ys = ?I" by (simp add: iterates_def)
  have ts_eq: "map (\<lambda>pc_a. sort (map (\<lambda>pc_b. (pc_b - pc_a) mod 12) xs)) xs = ts"
    by (simp add: ts_def sort_map_candidate [OF assms(1,3)])
  have ivs_eq: "map (\<lambda>pc_a. sort (map (\<lambda>pc_b. (pc_b - pc_a) mod 12) ys)) ys = ivs"
    by (simp add: ivs_def sort_map_candidate [OF inverted_pcs_range assms(4)])
  have ts_set: "set ts = candidates S" by (simp add: ts_def candidates_def sx)
  have ivs_set: "set ivs = candidates ?I" by (simp add: ivs_def candidates_def sy)
  from assms(2) sx have ts_ne: "ts \<noteq> []" by (auto simp: ts_def)
  from assms(2) sy have ivs_ne: "ivs \<noteq> []" by (auto simp: ivs_def inverted_pcs_def)
  note pt = pick_min [OF ts_ne, unfolded ts_set]
  note pi = pick_min [OF ivs_ne, unfolded ivs_set]
  have unfold: "prime_form xs ys =
      bindE (py_min (map weight ts)) (\<lambda>min_t.
      bindE (py_min (map weight ivs)) (\<lambda>min_i.
        if min_t \<le> min_i
        then bindE (py_index (map weight ts) min_t) (py_nth ts)
        else bindE (py_index (map weight ivs) min_i) (py_nth ivs)))"
    by (simp add: prime_form_def Let_def ts_eq ivs_eq weight_shl1)
  show ?thesis
  proof (cases "Min (weight ` candidates S) \<le> Min (weight ` candidates ?I)")
    case True
    from pt(2) obtain c where c:
      "bindE (py_index (map weight ts) (Min (weight ` candidates S))) (py_nth ts) = Inr c"
      "c \<in> candidates S" "weight c = Min (weight ` candidates S)"
      by blast
    from True c(1) have "prime_form xs ys = Inr c"
      by (simp add: unfold pt(1) pi(1) bindE_def)
    with True c(2,3) show ?thesis by simp
  next
    case False
    from pi(2) obtain c where c:
      "bindE (py_index (map weight ivs) (Min (weight ` candidates ?I))) (py_nth ivs) = Inr c"
      "c \<in> candidates ?I" "weight c = Min (weight ` candidates ?I)"
      by blast
    from False c(1) have "prime_form xs ys = Inr c"
      by (simp add: unfold pt(1) pi(1) bindE_def)
    with False c(2,3) show ?thesis by simp
  qed
qed


lemma candidates_finite_nonempty:
  assumes "finite S" and "S \<noteq> {}"
  shows "finite (weight ` candidates S)" and "weight ` candidates S \<noteq> {}"
  using assms by (simp_all add: candidates_def)

lemma inverted_pcs_nonempty: "S \<noteq> {} \<Longrightarrow> inverted_pcs S \<noteq> {}"
  by (simp add: inverted_pcs_def)

lemma subset_range_finite: "S \<subseteq> {0..11::int} \<Longrightarrow> finite S"
  by (rule finite_subset [where B = "{0..11}"]) simp_all

lemma chosen_is_global_min:
  assumes "S \<subseteq> {0..11}" and "S \<noteq> {}"
    and "if Min (weight ` candidates S) \<le> Min (weight ` candidates (inverted_pcs S))
         then c \<in> candidates S \<and> weight c = Min (weight ` candidates S)
         else c \<in> candidates (inverted_pcs S)
              \<and> weight c = Min (weight ` candidates (inverted_pcs S))"
  shows "c \<in> candidates S \<union> candidates (inverted_pcs S)"
    and "weight c = Min (weight ` (candidates S \<union> candidates (inverted_pcs S)))"
proof -
  let ?T = "weight ` candidates S" and ?I = "weight ` candidates (inverted_pcs S)"
  note fS = subset_range_finite [OF assms(1)]
  note fI = subset_range_finite [OF inverted_pcs_range [of S]]
  note t = candidates_finite_nonempty [OF fS assms(2)]
  note i = candidates_finite_nonempty [OF fI inverted_pcs_nonempty [OF assms(2)]]
  have "Min (?T \<union> ?I) = min (Min ?T) (Min ?I)"
    using t i by (rule Min_Un)
  then have m: "Min (weight ` (candidates S \<union> candidates (inverted_pcs S)))
      = min (Min ?T) (Min ?I)"
    by (simp add: image_Un)
  show "c \<in> candidates S \<union> candidates (inverted_pcs S)"
    using assms(3) by (auto split: if_splits)
  show "weight c = Min (weight ` (candidates S \<union> candidates (inverted_pcs S)))"
    unfolding m using assms(3) by (auto split: if_splits simp: min_def)
qed

lemma prime_form_determined:
  assumes "S \<subseteq> {0..11}" and "S' \<subseteq> {0..11}" and "S \<noteq> {}" and "S' \<noteq> {}"
    and "candidates S' = candidates S"
    and "candidates (inverted_pcs S') = candidates (inverted_pcs S)"
    and "iterates xs S" and "iterates ys (inverted_pcs S)"
    and "iterates xs' S'" and "iterates ys' (inverted_pcs S')"
  shows "prime_form xs' ys' = prime_form xs ys"
proof -
  from prime_form_char [OF assms(1,3,7,8)] obtain c where c: "prime_form xs ys = Inr c"
    "if Min (weight ` candidates S) \<le> Min (weight ` candidates (inverted_pcs S))
     then c \<in> candidates S \<and> weight c = Min (weight ` candidates S)
     else c \<in> candidates (inverted_pcs S)
          \<and> weight c = Min (weight ` candidates (inverted_pcs S))"
    by blast
  from prime_form_char [OF assms(2,4,9,10)] obtain c' where c': "prime_form xs' ys' = Inr c'"
    "if Min (weight ` candidates S') \<le> Min (weight ` candidates (inverted_pcs S'))
     then c' \<in> candidates S' \<and> weight c' = Min (weight ` candidates S')
     else c' \<in> candidates (inverted_pcs S')
          \<and> weight c' = Min (weight ` candidates (inverted_pcs S'))"
    by blast
  note g = chosen_is_global_min [OF assms(1,3) c(2)]
  note g' = chosen_is_global_min [OF assms(2,4) c'(2), unfolded assms(5,6)]
  from g(2) g'(2) have "weight c = weight c'" by simp
  from candidates_weight_inj [OF subset_range_finite [OF assms(1)]
      subset_range_finite [OF inverted_pcs_range [of S]] g(1) g'(1) this]
  show ?thesis using c(1) c'(1) by simp
qed





lemma prime_form_any_order:
  assumes "S \<subseteq> {0..11}" and "S \<noteq> {}"
    and "iterates xs0 S" and "iterates ys0 (inverted_pcs S)"
    and "iterates xs S" and "iterates ys (inverted_pcs S)"
  shows "prime_form xs ys = prime_form xs0 ys0"
  using prime_form_determined [OF assms(1,1,2,2) refl refl assms(3,4,5,6)] .

lemma prime_form_0_1_2:
  assumes "iterates xs {0, 1, 2}" and "iterates ys (inverted_pcs {0, 1, 2})"
  shows "prime_form xs ys = Inr [0, 1, 2]"
proof -
  have "iterates [0, 1, 2] {0, 1, 2}" "iterates [0, 11, 10] (inverted_pcs {0, 1, 2})"
    by (simp_all add: iterates_def inverted_pcs_def)
  from prime_form_any_order [OF _ _ this assms]
  have "prime_form xs ys = prime_form [0, 1, 2] [0, 11, 10]" by simp
  also have "\<dots> = Inr [0, 1, 2]" by code_simp
  finally show ?thesis .
qed

lemma prime_form_0_4_8:
  assumes "iterates xs {0, 4, 8}" and "iterates ys (inverted_pcs {0, 4, 8})"
  shows "prime_form xs ys = Inr [0, 4, 8]"
proof -
  have "iterates [0, 4, 8] {0, 4, 8}" "iterates [0, 8, 4] (inverted_pcs {0, 4, 8})"
    by (simp_all add: iterates_def inverted_pcs_def)
  from prime_form_any_order [OF _ _ this assms]
  have "prime_form xs ys = prime_form [0, 4, 8] [0, 8, 4]" by simp
  also have "\<dots> = Inr [0, 4, 8]" by code_simp
  finally show ?thesis .
qed

lemma prime_form_general:
  assumes "valid s" and "pcs s \<noteq> {}"
    and "iterates xs (pcs s)" and "iterates ys (inverted_pcs (pcs s))"
  shows "\<exists>c. prime_form xs ys = Inr c
     \<and> (if Min (weight ` candidates (pcs s))
             \<le> Min (weight ` candidates (inverted_pcs (pcs s)))
        then c \<in> candidates (pcs s) \<and> weight c = Min (weight ` candidates (pcs s))
        else c \<in> candidates (inverted_pcs (pcs s))
             \<and> weight c = Min (weight ` candidates (inverted_pcs (pcs s))))
     \<and> (\<forall>c'\<in>candidates (pcs s) \<union> candidates (inverted_pcs (pcs s)).
            weight c \<le> weight c' \<and> (weight c' = weight c \<longrightarrow> c' = c))"
proof -
  let ?S = "pcs s"
  let ?A = "candidates ?S \<union> candidates (inverted_pcs ?S)"
  from assms(1) have r: "?S \<subseteq> {0..11}" by (simp add: valid_def)
  note fS = subset_range_finite [OF r]
  note fI = subset_range_finite [OF inverted_pcs_range [of ?S]]
  from prime_form_char [OF r assms(2,3,4)] obtain c where c: "prime_form xs ys = Inr c"
    "if Min (weight ` candidates ?S) \<le> Min (weight ` candidates (inverted_pcs ?S))
     then c \<in> candidates ?S \<and> weight c = Min (weight ` candidates ?S)
     else c \<in> candidates (inverted_pcs ?S)
          \<and> weight c = Min (weight ` candidates (inverted_pcs ?S))"
    by blast
  note g = chosen_is_global_min [OF r assms(2) c(2)]
  have fin: "finite (weight ` ?A)"
    using fS fI by (simp add: candidates_def)
  have "weight c \<le> weight c' \<and> (weight c' = weight c \<longrightarrow> c' = c)" if "c' \<in> ?A" for c'
  proof
    from that have "weight c' \<in> weight ` ?A" by (rule imageI)
    with fin show "weight c \<le> weight c'" unfolding g(2) by (rule Min_le)
    show "weight c' = weight c \<longrightarrow> c' = c"
      using candidates_weight_inj [OF fS fI that g(1)] by simp
  qed
  with c show ?thesis by blast
qed

text \<open>
  C2. For a non-empty valid set, whatever the orders in which the set and its pitch-inversion
  are iterated, \<open>prime_form\<close> returns a candidate \<open>sorted((b - a) mod 12 for all b)\<close> taken
  over the starting elements \<open>a\<close> of the set and of its pitch-inversion: with \<open>min_t\<close> and
  \<open>min_i\<close> the least weights \<open>sum(2 ^ value)\<close> on the two sides, it is the transposition-side
  candidate of weight \<open>min_t\<close> when \<open>min_t \<le> min_i\<close> and the inversion-side candidate of
  weight \<open>min_i\<close> otherwise. Its weight is therefore minimal among all candidates of both
  sides, and it is the only candidate of that weight. In particular \<open>PCSet(0, 1, 2)\<close> has
  prime form \<open>[0, 1, 2]\<close> and \<open>PCSet(0, 4, 8)\<close> has prime form \<open>[0, 4, 8]\<close>.
\<close>

theorem prime_form_minimal_candidate:
  "(valid s \<and> pcs s \<noteq> {} \<and> iterates xs (pcs s) \<and> iterates ys (inverted_pcs (pcs s)) \<longrightarrow>
      (\<exists>c. prime_form xs ys = Inr c
         \<and> (if Min (weight ` candidates (pcs s))
                 \<le> Min (weight ` candidates (inverted_pcs (pcs s)))
            then c \<in> candidates (pcs s) \<and> weight c = Min (weight ` candidates (pcs s))
            else c \<in> candidates (inverted_pcs (pcs s))
                 \<and> weight c = Min (weight ` candidates (inverted_pcs (pcs s))))
         \<and> (\<forall>c'\<in>candidates (pcs s) \<union> candidates (inverted_pcs (pcs s)).
                weight c \<le> weight c' \<and> (weight c' = weight c \<longrightarrow> c' = c))))
   \<and> (\<exists>s'. init [0, 1, 2] = Inr s'
         \<and> (\<forall>xs ys. iterates xs (pcs s') \<and> iterates ys (inverted_pcs (pcs s'))
               \<longrightarrow> prime_form xs ys = Inr [0, 1, 2]))
   \<and> (\<exists>s'. init [0, 4, 8] = Inr s'
         \<and> (\<forall>xs ys. iterates xs (pcs s') \<and> iterates ys (inverted_pcs (pcs s'))
               \<longrightarrow> prime_form xs ys = Inr [0, 4, 8]))"
proof -
  have i1: "init [0, 1, 2] = Inr \<lparr>pcs = {0, 1, 2}\<rparr>"
    by (auto simp: init_def bindE_def check_n_def)
  have i2: "init [0, 4, 8] = Inr \<lparr>pcs = {0, 4, 8}\<rparr>"
    by (auto simp: init_def bindE_def check_n_def)
  have e1: "\<exists>s'. init [0, 1, 2] = Inr s'
         \<and> (\<forall>xs ys. iterates xs (pcs s') \<and> iterates ys (inverted_pcs (pcs s'))
               \<longrightarrow> prime_form xs ys = Inr [0, 1, 2])"
    using i1 prime_form_0_1_2 by simp
  have e2: "\<exists>s'. init [0, 4, 8] = Inr s'
         \<and> (\<forall>xs ys. iterates xs (pcs s') \<and> iterates ys (inverted_pcs (pcs s'))
               \<longrightarrow> prime_form xs ys = Inr [0, 4, 8])"
    using i2 prime_form_0_4_8 by simp
  from e1 e2 prime_form_general [of s xs ys] show ?thesis by blast
qed

theorem prime_form_minimal_candidate_witness:
  "valid \<lparr>pcs = {4, 1, 8, 2}\<rparr> \<and> pcs \<lparr>pcs = {4, 1, 8, 2}\<rparr> \<noteq> {}
   \<and> iterates [8, 1, 2, 4] (pcs \<lparr>pcs = {4, 1, 8, 2}\<rparr>)
   \<and> iterates [8, 10, 11, 4] (inverted_pcs (pcs \<lparr>pcs = {4, 1, 8, 2}\<rparr>))
   \<and> prime_form [8, 1, 2, 4] [8, 10, 11, 4] = Inr [0, 1, 3, 7]
   \<and> (\<exists>c. prime_form [8, 1, 2, 4] [8, 10, 11, 4] = Inr c
         \<and> (if Min (weight ` candidates (pcs \<lparr>pcs = {4, 1, 8, 2}\<rparr>))
                 \<le> Min (weight ` candidates (inverted_pcs (pcs \<lparr>pcs = {4, 1, 8, 2}\<rparr>)))
            then c \<in> candidates (pcs \<lparr>pcs = {4, 1, 8, 2}\<rparr>)
            else c \<in> candidates (inverted_pcs (pcs \<lparr>pcs = {4, 1, 8, 2}\<rparr>))))"
proof -
  let ?s = "\<lparr>pcs = {4, 1, 8, 2}\<rparr>"
  have h: "valid ?s \<and> pcs ?s \<noteq> {} \<and> iterates [8, 1, 2, 4] (pcs ?s)
      \<and> iterates [8, 10, 11, 4] (inverted_pcs (pcs ?s))"
    by (auto simp: valid_def iterates_def inverted_pcs_def)
  have e: "prime_form [8, 1, 2, 4] [8, 10, 11, 4] = Inr [0, 1, 3, 7]"
    by code_simp
  from prime_form_minimal_candidate [of ?s "[8, 1, 2, 4]" "[8, 10, 11, 4]"] h
  have "\<exists>c. prime_form [8, 1, 2, 4] [8, 10, 11, 4] = Inr c
         \<and> (if Min (weight ` candidates (pcs ?s))
                 \<le> Min (weight ` candidates (inverted_pcs (pcs ?s)))
            then c \<in> candidates (pcs ?s) \<and> weight c = Min (weight ` candidates (pcs ?s))
            else c \<in> candidates (inverted_pcs (pcs ?s))
                 \<and> weight c = Min (weight ` candidates (inverted_pcs (pcs ?s))))
         \<and> (\<forall>c'\<in>candidates (pcs ?s) \<union> candidates (inverted_pcs (pcs ?s)).
                weight c \<le> weight c' \<and> (weight c' = weight c \<longrightarrow> c' = c))"
    by blast
  then have "\<exists>c. prime_form [8, 1, 2, 4] [8, 10, 11, 4] = Inr c
         \<and> (if Min (weight ` candidates (pcs ?s))
                 \<le> Min (weight ` candidates (inverted_pcs (pcs ?s)))
            then c \<in> candidates (pcs ?s)
            else c \<in> candidates (inverted_pcs (pcs ?s)))"
    by (auto split: if_splits)
  with h e show ?thesis by blast
qed



end
